theory Spec2Isabelle
  imports Complex_Main "HOL-Library.Word" "HOL-Library.Sublist"
begin

section \<open>JavaScript strings and the built-ins the bot uses\<close>

text \<open>
  A JavaScript string is a sequence of 16-bit UTF-16 code units. \<open>js\<close> writes an ASCII
  literal of the source (\<^verbatim>\<open>'[deleted]'\<close>, \<^verbatim>\<open>'GOODBYE'\<close>) as such a sequence.
\<close>

type_synonym code_unit = "16 word"
type_synonym js_string = "code_unit list"

definition js :: "string \<Rightarrow> js_string" where
  "js s = map of_char s"

definition backslash :: code_unit where
  "backslash = 0x5C"

definition sharp_s :: js_string where
  "sharp_s = [0xDF]"

text \<open>
  \<^verbatim>\<open>Array.from(string)\<close> iterates the string by code points: a high surrogate followed
  by a low surrogate is one element, every other code unit (a lone surrogate too) is an
  element of its own.
\<close>

definition isHighSurrogate :: "code_unit \<Rightarrow> bool" where
  "isHighSurrogate c \<longleftrightarrow> 0xD800 \<le> c \<and> c \<le> 0xDBFF"

definition isLowSurrogate :: "code_unit \<Rightarrow> bool" where
  "isLowSurrogate c \<longleftrightarrow> 0xDC00 \<le> c \<and> c \<le> 0xDFFF"

fun codePoints :: "js_string \<Rightarrow> js_string list" where
  "codePoints [] = []"
| "codePoints [c] = [[c]]"
| "codePoints (c # d # cs) =
     (if isHighSurrogate c \<and> isLowSurrogate d then [c, d] # codePoints cs
      else [c] # codePoints (d # cs))"

text \<open>\<^verbatim>\<open>function countSymbols(string) { return Array.from(string).length; }\<close>\<close>

definition countSymbols :: "js_string \<Rightarrow> nat" where
  "countSymbols string = length (codePoints string)"

text \<open>
  White space and line terminators of ECMAScript: what \<^verbatim>\<open>trim()\<close> strips and what
  \<^verbatim>\<open>\s\<close> matches. A line terminator is what \<^verbatim>\<open>.\<close> does not match.
\<close>

definition isLineTerminator :: "code_unit \<Rightarrow> bool" where
  "isLineTerminator c \<longleftrightarrow> c = 0x0A \<or> c = 0x0D \<or> c = 0x2028 \<or> c = 0x2029"

definition isWhiteSpace :: "code_unit \<Rightarrow> bool" where
  "isWhiteSpace c \<longleftrightarrow>
     c = 0x09 \<or> c = 0x0B \<or> c = 0x0C \<or> c = 0x20 \<or> c = 0xA0 \<or> c = 0x1680 \<or>
     (0x2000 \<le> c \<and> c \<le> 0x200A) \<or> c = 0x202F \<or> c = 0x205F \<or> c = 0x3000 \<or>
     c = 0xFEFF \<or> isLineTerminator c"

definition trim :: "js_string \<Rightarrow> js_string" where
  "trim s = rev (dropWhile isWhiteSpace (rev (dropWhile isWhiteSpace s)))"

text \<open>\<^verbatim>\<open>\w\<close> is \<^verbatim>\<open>[A-Za-z0-9_]\<close>; \<^verbatim>\<open>\W\<close> is every other code unit.\<close>

definition isWordChar :: "code_unit \<Rightarrow> bool" where
  "isWordChar c \<longleftrightarrow>
     (0x41 \<le> c \<and> c \<le> 0x5A) \<or> (0x61 \<le> c \<and> c \<le> 0x7A) \<or>
     (0x30 \<le> c \<and> c \<le> 0x39) \<or> c = 0x5F"

text \<open>
  The link pattern \<^verbatim>\<open>/\[(.*?)\]\(.*?\)/g\<close>. \<open>matchTarget\<close> is the tail
  \<^verbatim>\<open>.*?\)\<close>: the lazy star stops at the first closing parenthesis and fails on a
  line terminator. \<open>matchLink\<close> is \<^verbatim>\<open>(.*?)\]\(.*?\)\<close> after the opening bracket: the
  lazy group grows one code unit at a time until the rest of the pattern matches; it
  returns the group and what follows the match.
\<close>

fun matchTarget :: "js_string \<Rightarrow> js_string option" where
  "matchTarget [] = None"
| "matchTarget (c # cs) =
     (if c = 0x29 then Some cs
      else if isLineTerminator c then None
      else matchTarget cs)"

fun closesText :: "js_string \<Rightarrow> js_string option" where
  "closesText (c # d # cs) = (if c = 0x5D \<and> d = 0x28 then matchTarget cs else None)"
| "closesText _ = None"

fun matchLink :: "js_string \<Rightarrow> js_string \<Rightarrow> (js_string \<times> js_string) option" where
  "matchLink captured [] = None"
| "matchLink captured (c # cs) =
     (case closesText (c # cs) of
        Some rest \<Rightarrow> Some (captured, rest)
      | None \<Rightarrow> if isLineTerminator c then None else matchLink (captured @ [c]) cs)"

lemma matchTarget_length: "matchTarget s = Some rest \<Longrightarrow> length rest < length s"
  by (induction s) (auto split: if_splits)

lemma closesText_length: "closesText s = Some rest \<Longrightarrow> length rest < length s"
  by (cases s rule: closesText.cases) (auto split: if_splits dest: matchTarget_length)

lemma matchLink_length: "matchLink g s = Some (g', rest) \<Longrightarrow> length rest < length s"
proof (induction s arbitrary: g)
  case Nil
  then show ?case by simp
next
  case (Cons c cs)
  show ?case
  proof (cases "closesText (c # cs)")
    case None
    with Cons.prems have "matchLink (g @ [c]) cs = Some (g', rest)"
      by (simp split: if_splits)
    from Cons.IH [OF this] show ?thesis by simp
  next
    case (Some r)
    with Cons.prems have "rest = r" by simp
    with Some show ?thesis by (auto dest: closesText_length)
  qed
qed

text \<open>
  \<^verbatim>\<open>body.replace(link, '$1')\<close>: every match, found from left to right, is replaced by its
  group; the search goes on after the match.
\<close>

function replaceLinks :: "js_string \<Rightarrow> js_string" where
  "replaceLinks [] = []"
| "replaceLinks (c # cs) =
     (if c = 0x5B then
        (case matchLink [] cs of
           Some (captured, rest) \<Rightarrow> captured @ replaceLinks rest
         | None \<Rightarrow> c # replaceLinks cs)
      else c # replaceLinks cs)"
  by pat_completeness auto
termination
  by (relation "measure length") (auto dest: matchLink_length)

text \<open>
  \<^verbatim>\<open>body.replace('\\', '')\<close>: the pattern is a string, not a regular expression, so only
  its first occurrence is replaced.
\<close>

definition replaceBackslash :: "js_string \<Rightarrow> js_string" where
  "replaceBackslash s = remove1 backslash s"

text \<open>\<^verbatim>\<open>body.replace(/\W/g, '')\<close>\<close>

definition stripNonWord :: "js_string \<Rightarrow> js_string" where
  "stripNonWord s = filter isWordChar s"

text \<open>
  \<^verbatim>\<open>toUpperCase()\<close> maps each code point to its upper-case string. For ASCII the mapping
  is \<open>a..z\<close> to \<open>A..Z\<close>; for every other code point it is the Unicode table, which is not
  part of the program and is a parameter (\<open>unicodeUpper\<close> of the host).
\<close>

definition isLowerAscii :: "code_unit \<Rightarrow> bool" where
  "isLowerAscii c \<longleftrightarrow> 0x61 \<le> c \<and> c \<le> 0x7A"

definition asciiUpper :: "code_unit \<Rightarrow> code_unit" where
  "asciiUpper c = (if isLowerAscii c then c - 0x20 else c)"

text \<open>
  What the program takes from its host: the Unicode case table, the conversion of a
  string to a number (\<^verbatim>\<open>ToNumber\<close>), the length in milliseconds of an ISO 8601 duration
  (\<^verbatim>\<open>moment.duration\<close>), the clock (\<^verbatim>\<open>moment()\<close>, milliseconds), the environment variable
  \<^verbatim>\<open>process.env.threshold\<close> and the line end \<^verbatim>\<open>os.EOL\<close>.
\<close>

datatype js_number = NaN | NegInfinity | Finite rat | PosInfinity

record host =
  unicodeUpper :: "js_string \<Rightarrow> js_string"
  toNumber :: "js_string \<Rightarrow> js_number"
  duration_ms :: "js_string \<Rightarrow> int"
  now_ms :: int
  COMMENT_SCORE_THRESHOLD :: "js_string option"
  EOL :: js_string

definition upperCodePoint :: "host \<Rightarrow> js_string \<Rightarrow> js_string" where
  "upperCodePoint h p =
     (case p of
        [c] \<Rightarrow> if c < 0x80 then [asciiUpper c] else unicodeUpper h p
      | _ \<Rightarrow> unicodeUpper h p)"

definition toUpperCase :: "host \<Rightarrow> js_string \<Rightarrow> js_string" where
  "toUpperCase h s = concat (map (upperCodePoint h) (codePoints s))"

text \<open>\<^verbatim>\<open>goodbyeRegex = /^GOODBYE/\<close>, tested on a string.\<close>

definition goodbyeRegex_test :: "js_string \<Rightarrow> bool" where
  "goodbyeRegex_test s \<longleftrightarrow> take 7 s = js ''GOODBYE''"

section \<open>Comments\<close>

text \<open>
  A comment of the platform, as the program reads it: identifier, body, author name,
  the two creation stamps, score, \<^verbatim>\<open>banned_by\<close>, its own \<^verbatim>\<open>removed\<close> property and the
  replies.
\<close>

datatype snoo_comment = SnooComment
  (snoo_id: js_string)
  (snoo_body: js_string)
  (snoo_author: js_string)
  (snoo_created_utc: int)
  (snoo_created: int)
  (snoo_score: int)
  (snoo_banned_by: "js_string option")
  (snoo_removed: bool)
  (snoo_replies: "snoo_comment list")

datatype comment_type = Letter | Goodbye | Invalid

text \<open>The own properties of an \<^verbatim>\<open>OuijaComment\<close>.\<close>

record ouija_comment =
  snooObj :: snoo_comment
  body :: js_string
  removed :: bool
  ctype :: comment_type

text \<open>\<^verbatim>\<open>parseBody(body)\<close>\<close>

definition parseBody :: "host \<Rightarrow> js_string \<Rightarrow> js_string" where
  "parseBody h raw =
     (if raw = js ''[deleted]'' then js ''*''
      else
        let body = replaceLinks raw;
            body = trim (replaceBackslash body);
            body = (if countSymbols body > 1 then stripNonWord body else body)
        in if body = sharp_s then body else toUpperCase h body)"

text \<open>A string or \<^verbatim>\<open>null\<close> in a condition: \<^verbatim>\<open>null\<close>, \<^verbatim>\<open>undefined\<close> and \<^verbatim>\<open>''\<close> are falsy.\<close>

definition truthy :: "js_string option \<Rightarrow> bool" where
  "truthy v \<longleftrightarrow> (case v of None \<Rightarrow> False | Some s \<Rightarrow> s \<noteq> [])"

text \<open>The constructor of \<^verbatim>\<open>OuijaComment\<close>.\<close>

definition OuijaComment :: "host \<Rightarrow> snoo_comment \<Rightarrow> ouija_comment" where
  "OuijaComment h comment =
     (let b = parseBody h (snoo_body comment) in
      \<lparr> snooObj = comment,
        body = b,
        removed = truthy (snoo_banned_by comment),
        ctype =
          (if truthy (snoo_banned_by comment) then Invalid
           else if countSymbols b = 1 then Letter
           else if goodbyeRegex_test b then Goodbye
           else Invalid) \<rparr>)"

text \<open>
  Every \<^verbatim>\<open>OuijaComment\<close> is handed out wrapped in
  \<^verbatim>\<open>new Proxy(this, { get: (target, prop) => target[prop] || comment[prop] })\<close>:
  a property read from outside yields the own property when that is truthy and the
  property of the platform comment otherwise. So an empty normalized body reads as the
  raw body, and \<^verbatim>\<open>removed\<close> reads as true when either object says so. The getter
  \<^verbatim>\<open>created\<close> is \<^verbatim>\<open>created_utc\<close> of the platform comment, or its \<^verbatim>\<open>created\<close> when that is 0.
\<close>

definition proxy_body :: "ouija_comment \<Rightarrow> js_string" where
  "proxy_body c = (if body c \<noteq> [] then body c else snoo_body (snooObj c))"

definition proxy_removed :: "ouija_comment \<Rightarrow> bool" where
  "proxy_removed c \<longleftrightarrow> removed c \<or> snoo_removed (snooObj c)"

definition proxy_created :: "ouija_comment \<Rightarrow> int" where
  "proxy_created c =
     (if snoo_created_utc (snooObj c) \<noteq> 0 then snoo_created_utc (snooObj c)
      else snoo_created (snooObj c))"

definition proxy_score :: "ouija_comment \<Rightarrow> int" where
  "proxy_score c = snoo_score (snooObj c)"

definition proxy_id :: "ouija_comment \<Rightarrow> js_string" where
  "proxy_id c = snoo_id (snooObj c)"

definition proxy_author :: "ouija_comment \<Rightarrow> js_string" where
  "proxy_author c = snoo_author (snooObj c)"

definition hasReplies :: "ouija_comment \<Rightarrow> bool" where
  "hasReplies c \<longleftrightarrow> length (snoo_replies (snooObj c)) > 0"

text \<open>
  \<^verbatim>\<open>remove(reason)\<close>: nothing when the comment reads as removed, otherwise the platform is
  asked to remove it. The requests made are kept in order, each with its reason.
\<close>

type_synonym removal = "snoo_comment \<times> js_string"

definition remove :: "js_string \<Rightarrow> ouija_comment \<Rightarrow> removal list \<Rightarrow> removal list" where
  "remove reason c reqs = (if proxy_removed c then reqs else reqs @ [(snooObj c, reason)])"

section \<open>The duplicate handler\<close>

text \<open>
  \<^verbatim>\<open>this.comments\<close>: from the body read from a comment to the comment kept for it. It is
  an object used as a map. The names that every object inherits (\<^verbatim>\<open>constructor\<close>,
  \<^verbatim>\<open>toString\<close> and the like) are made of word characters and have lower-case letters,
  so neither a normalized body nor a raw body whose normalized body is empty is one of
  them.
\<close>

type_synonym handler = "js_string \<rightharpoonup> ouija_comment"

definition handle :: "ouija_comment \<Rightarrow> handler \<times> removal list \<Rightarrow> handler \<times> removal list" where
  "handle comment st =
     (let (comments, reqs) = st;
          key = proxy_body comment
      in case comments key of
           Some existing \<Rightarrow>
             if proxy_created comment > proxy_created existing \<and> \<not> hasReplies comment
             then (comments, remove (js ''duplicate'') comment reqs)
             else if \<not> hasReplies existing
             then (comments(key \<mapsto> comment), remove (js ''duplicate'') existing reqs)
             else (comments, reqs)
         | None \<Rightarrow> (comments(key \<mapsto> comment), reqs))"

section \<open>Numbers in comparisons\<close>

text \<open>
  \<^verbatim>\<open>a < b\<close> and \<^verbatim>\<open>a >= b\<close> on numbers: the comparison is undefined when either side is
  \<^verbatim>\<open>NaN\<close>, and both operators are then false.
\<close>

fun isLessThan :: "js_number \<Rightarrow> js_number \<Rightarrow> bool option" where
  "isLessThan NaN _ = None"
| "isLessThan _ NaN = None"
| "isLessThan (Finite x) (Finite y) = Some (x < y)"
| "isLessThan PosInfinity _ = Some False"
| "isLessThan _ PosInfinity = Some True"
| "isLessThan _ NegInfinity = Some False"
| "isLessThan NegInfinity _ = Some True"

definition js_lt :: "js_number \<Rightarrow> js_number \<Rightarrow> bool" where
  "js_lt a b \<longleftrightarrow> isLessThan a b = Some True"

definition js_ge :: "js_number \<Rightarrow> js_number \<Rightarrow> bool" where
  "js_ge a b \<longleftrightarrow> isLessThan a b = Some False"

text \<open>A string or \<^verbatim>\<open>undefined\<close> as an operand of a numeric comparison.\<close>

definition toNumeric :: "host \<Rightarrow> js_string option \<Rightarrow> js_number" where
  "toNumeric h v = (case v of None \<Rightarrow> NaN | Some s \<Rightarrow> toNumber h s)"

definition number :: "int \<Rightarrow> js_number" where
  "number i = Finite (of_int i)"

section \<open>The submission and its configuration\<close>

record post =
  title :: js_string
  url :: js_string
  selftext :: js_string
  created_utc :: int
  distinguished :: "js_string option"
  comments :: "snoo_comment list"

text \<open>
  \<^verbatim>\<open>parseConfig(input)\<close> collects the matches of \<^verbatim>\<open>/(\w+)\s*:\s*(\w+)/g\<close>. \<open>matchSetting\<close>
  matches the pattern at the head of a string; the greedy runs leave no other way to
  match there.
\<close>

definition matchSetting :: "js_string \<Rightarrow> (js_string \<times> js_string \<times> js_string) option" where
  "matchSetting s =
     (let k = takeWhile isWordChar s;
          r = dropWhile isWhiteSpace (dropWhile isWordChar s)
      in if k = [] then None
         else case r of
                [] \<Rightarrow> None
              | c # r' \<Rightarrow>
                  if c \<noteq> 0x3A then None
                  else let r'' = dropWhile isWhiteSpace r';
                           v = takeWhile isWordChar r''
                       in if v = [] then None else Some (k, v, dropWhile isWordChar r''))"

lemma matchSetting_length: "matchSetting s = Some (k, v, rest) \<Longrightarrow> length rest < length s"
proof -
  assume a: "matchSetting s = Some (k, v, rest)"
  have le: "\<And>P (xs :: js_string). length (dropWhile P xs) \<le> length xs"
    by (simp add: length_dropWhile_le)
  from a obtain r' where r: "dropWhile isWhiteSpace (dropWhile isWordChar s) = 0x3A # r'"
    and rest: "rest = dropWhile isWordChar (dropWhile isWhiteSpace r')"
    by (auto simp: matchSetting_def Let_def split: if_splits list.splits)
  have "length rest \<le> length r'"
    unfolding rest by (meson le order_trans)
  also have "length r' < length (dropWhile isWhiteSpace (dropWhile isWordChar s))"
    by (simp add: r)
  also have "\<dots> \<le> length s"
    by (meson le order_trans)
  finally show ?thesis .
qed

type_synonym config = "js_string \<rightharpoonup> js_string"

function parseConfig_loop :: "js_string \<Rightarrow> config \<Rightarrow> config" where
  "parseConfig_loop [] config = config"
| "parseConfig_loop (c # cs) config =
     (case matchSetting (c # cs) of
        Some (k, v, rest) \<Rightarrow> parseConfig_loop rest (config(k \<mapsto> v))
      | None \<Rightarrow> parseConfig_loop cs config)"
  by pat_completeness auto
termination
  by (relation "measure (\<lambda>(s, c). length s)") (auto dest: matchSetting_length)

definition parseConfig :: "js_string \<Rightarrow> config" where
  "parseConfig input = parseConfig_loop input Map.empty"

section \<open>The query\<close>

record spelling =
  letters :: "js_string list"

record completed = spelling +
  goodbye :: ouija_comment

record unfinished = spelling +
  lastComment :: ouija_comment

record responses =
  complete :: "completed list"
  incomplete :: "unfinished list"

record ouija_query =
  post :: post
  config :: config
  responses :: responses
  answered :: bool
  isMeta :: bool
  isModPost :: bool

text \<open>\<^verbatim>\<open>/\[meta\]/i.test(title)\<close>: the six code units somewhere in the title, in either case.\<close>

definition metaRegex_test :: "js_string \<Rightarrow> bool" where
  "metaRegex_test t \<longleftrightarrow>
     list_ex (\<lambda>i. map asciiUpper (take 6 (drop i t)) = js ''[META]'') [0 ..< length t]"

definition OuijaQuery :: "post \<Rightarrow> ouija_query" where
  "OuijaQuery p =
     \<lparr> post = p,
       config = parseConfig (selftext p),
       responses = \<lparr> complete = [], incomplete = [] \<rparr>,
       answered = False,
       isMeta = metaRegex_test (title p),
       isModPost = (distinguished p = Some (js ''moderator'')) \<rparr>"

section \<open>Collecting the responses\<close>

text \<open>
  \<^verbatim>\<open>collectResponses(comment, letters)\<close> changes \<^verbatim>\<open>this.responses\<close> and asks for
  removals; the model passes the query and the removal requests along. \<open>collectReplies\<close>
  is the loop over \<^verbatim>\<open>comment.replies()\<close> of the letter case, with its duplicate handler
  and \<^verbatim>\<open>hasChildren\<close>.
\<close>

definition minlettersShort :: "host \<Rightarrow> ouija_query \<Rightarrow> js_string list \<Rightarrow> bool" where
  "minlettersShort h q ls \<longleftrightarrow>
     truthy (config q (js ''minletters'')) \<and>
     js_lt (number (int (length ls))) (toNumeric h (config q (js ''minletters'')))"

definition pushComplete :: "completed \<Rightarrow> ouija_query \<Rightarrow> ouija_query" where
  "pushComplete r q = q\<lparr>responses := (responses q)\<lparr>complete := complete (responses q) @ [r]\<rparr>\<rparr>"

definition pushIncomplete :: "unfinished \<Rightarrow> ouija_query \<Rightarrow> ouija_query" where
  "pushIncomplete r q =
     q\<lparr>responses := (responses q)\<lparr>incomplete := incomplete (responses q) @ [r]\<rparr>\<rparr>"

lemma size_snoo_replies: "Suc (2 * size_list size (snoo_replies c)) < 2 * size c"
  by (cases c) simp

function collectResponses ::
    "host \<Rightarrow> ouija_comment \<Rightarrow> js_string list \<Rightarrow> ouija_query \<times> removal list \<Rightarrow>
     bool \<times> ouija_query \<times> removal list"
  and collectReplies ::
    "host \<Rightarrow> ouija_comment \<Rightarrow> js_string list \<Rightarrow> snoo_comment list \<Rightarrow>
     handler \<times> bool \<times> ouija_query \<times> removal list \<Rightarrow>
     handler \<times> bool \<times> ouija_query \<times> removal list"
where
  "collectResponses h comment ls (q, reqs) =
     (case ctype comment of
        Invalid \<Rightarrow> (False, q, remove (js ''invalid'') comment reqs)
      | Goodbye \<Rightarrow>
          if minlettersShort h q ls then (False, q, reqs)
          else (True, pushComplete \<lparr> letters = ls, goodbye = comment \<rparr> q, reqs)
      | Letter \<Rightarrow>
          (let ls' = ls @ [proxy_body comment];
               (dupHandler, hasChildren, q', reqs') =
                  collectReplies h comment ls' (snoo_replies (snooObj comment))
                    (Map.empty, False, q, reqs)
           in if \<not> hasChildren
              then (True, pushIncomplete \<lparr> letters = ls', lastComment = comment \<rparr> q', reqs')
              else (True, q', reqs')))"
| "collectReplies h comment ls [] st = st"
| "collectReplies h comment ls (r # rs) (dupHandler, hasChildren, q, reqs) =
     (let reply = OuijaComment h r
      in if proxy_author reply = proxy_author comment
         then collectReplies h comment ls rs
                (dupHandler, hasChildren, q, remove (js ''self-reply'') reply reqs)
         else
           (let (collected, q', reqs') = collectResponses h reply ls (q, reqs);
                hasChildren' = (if collected then True else hasChildren);
                (dupHandler', reqs'') = handle reply (dupHandler, reqs')
            in collectReplies h comment ls rs (dupHandler', hasChildren', q', reqs'')))"
  by pat_completeness auto
termination
  by (relation "measure (\<lambda>x. case x of
         Inl (h, comment, ls, st) \<Rightarrow> 2 * size (snooObj comment)
       | Inr (h, comment, ls, rs, st) \<Rightarrow> 2 * size_list size rs + 1)")
     (auto simp: OuijaComment_def Let_def size_snoo_replies)

text \<open>
  \<^verbatim>\<open>run()\<close>: the loop over the top-level comments, then the decision. \<open>run_loop\<close> is the
  loop; an invalid top-level comment is removed unless the post is a meta or a moderator
  post, and is neither collected nor given to the duplicate handler.
\<close>

fun run_loop ::
    "host \<Rightarrow> snoo_comment list \<Rightarrow> handler \<times> ouija_query \<times> removal list \<Rightarrow>
     handler \<times> ouija_query \<times> removal list" where
  "run_loop h [] st = st"
| "run_loop h (c # cs) (dupHandler, q, reqs) =
     (let comment = OuijaComment h c
      in if ctype comment = Invalid
         then run_loop h cs
                (dupHandler, q,
                 if \<not> isMeta q \<and> \<not> isModPost q then remove (js ''invalid'') comment reqs
                 else reqs)
         else
           (let (collected, q', reqs') = collectResponses h comment [] (q, reqs);
                (dupHandler', reqs'') = handle comment (dupHandler, reqs')
            in run_loop h cs (dupHandler', q', reqs'')))"

section \<open>The decision\<close>

text \<open>\<^verbatim>\<open>getTopCompletedResponse()\<close>: \<^verbatim>\<open>top\<close> starts as \<^verbatim>\<open>null\<close> and is replaced by a strictly
  better score only.\<close>

fun topLoop :: "completed list \<Rightarrow> completed option \<Rightarrow> completed option" where
  "topLoop [] topSoFar = topSoFar"
| "topLoop (response # rs) topSoFar =
     topLoop rs
       (case topSoFar of
          None \<Rightarrow> Some response
        | Some t \<Rightarrow>
            if proxy_score (goodbye response) > proxy_score (goodbye t) then Some response
            else topSoFar)"

definition getTopCompletedResponse :: "ouija_query \<Rightarrow> completed option" where
  "getTopCompletedResponse q = topLoop (complete (responses q)) None"

text \<open>\<^verbatim>\<open>get threshold(){ return this.config.minscore || COMMENT_SCORE_THRESHOLD; }\<close>\<close>

definition threshold :: "host \<Rightarrow> ouija_query \<Rightarrow> js_string option" where
  "threshold h q =
     (if truthy (config q (js ''minscore'')) then config q (js ''minscore'')
      else COMMENT_SCORE_THRESHOLD h)"

text \<open>
  \<^verbatim>\<open>hasTimeLeft()\<close>: \<^verbatim>\<open>moment.unix(created_utc)\<close> is the creation time in milliseconds, the
  duration is added to it, and \<^verbatim>\<open>isBefore\<close> is strict.
\<close>

definition hasTimeLeft :: "host \<Rightarrow> ouija_query \<Rightarrow> bool" where
  "hasTimeLeft h q =
     (case config q (js ''time'') of
        None \<Rightarrow> False
      | Some t \<Rightarrow>
          if t = [] then False
          else
            let creation = created_utc (post q) * 1000;
                duration = duration_ms h (js ''PT'' @ toUpperCase h t);
                readyTime = creation + duration
            in now_ms h < readyTime)"

definition getResponse :: "host \<Rightarrow> ouija_query \<Rightarrow> completed option" where
  "getResponse h q =
     (if hasTimeLeft h q then None
      else case getTopCompletedResponse q of
             None \<Rightarrow> None
           | Some topResponse \<Rightarrow>
               if js_ge (number (proxy_score (goodbye topResponse))) (toNumeric h (threshold h q))
               then Some topResponse
               else None)"

definition run :: "host \<Rightarrow> ouija_query \<Rightarrow> removal list \<Rightarrow>
    completed option \<times> ouija_query \<times> removal list" where
  "run h q reqs =
     (let (dupHandler, q', reqs') = run_loop h (comments (post q)) (Map.empty, q, reqs);
          response = getResponse h q'
      in (response, if response \<noteq> None then q'\<lparr>answered := True\<rparr> else q', reqs'))"

section \<open>The summary of unanswered posts\<close>

text \<open>A score in a template literal: the decimal digits of the integer, with its sign.\<close>

fun digits :: "nat \<Rightarrow> js_string" where
  "digits n = (if n < 10 then [of_nat (48 + n)] else digits (n div 10) @ [of_nat (48 + n mod 10)])"

definition numberToString :: "int \<Rightarrow> js_string" where
  "numberToString i = (if i < 0 then 0x2D # digits (nat (- i)) else digits (nat i))"

fun pendingRows :: "host \<Rightarrow> ouija_query \<Rightarrow> completed list \<Rightarrow> js_string \<Rightarrow> js_string" where
  "pendingRows h query [] markdown = markdown"
| "pendingRows h query (pending # rest) markdown =
     (let joined = concat (letters pending);
          answer = (if joined \<noteq> [] then joined else js ''[blank]'');
          link = url (post query) @ proxy_id (goodbye pending) @ js ''?context=999'';
          score = proxy_score (goodbye pending)
      in pendingRows h query rest
           (markdown @ js ''['' @ answer @ js '']('' @ link @ js '') | '' @
            numberToString score @ EOL h))"

definition createPendingWikiMarkdown :: "host \<Rightarrow> ouija_query \<Rightarrow> js_string" where
  "createPendingWikiMarkdown h query =
     (let markdown = js ''#### Pending'' @ EOL h;
          markdown = markdown @ js ''Letters | Score'' @ EOL h;
          markdown = markdown @ js ''--------|------'' @ EOL h
      in pendingRows h query (complete (responses query)) markdown)"

fun incompleteRows :: "host \<Rightarrow> ouija_query \<Rightarrow> unfinished list \<Rightarrow> js_string \<Rightarrow> js_string" where
  "incompleteRows h query [] markdown = markdown"
| "incompleteRows h query (sequence # rest) markdown =
     (let answer = concat (letters sequence);
          link = url (post query) @ proxy_id (lastComment sequence) @ js ''?context=999''
      in incompleteRows h query rest
           (markdown @ js ''['' @ answer @ js '']('' @ link @ js '') |'' @ EOL h))"

definition createIncompleteWikiMarkdown :: "host \<Rightarrow> ouija_query \<Rightarrow> js_string" where
  "createIncompleteWikiMarkdown h query =
     (let markdown = js ''#### Incomplete'' @ EOL h;
          markdown = markdown @ js ''Letters |'' @ EOL h;
          markdown = markdown @ js ''--------|'' @ EOL h
      in incompleteRows h query (incomplete (responses query)) markdown)"

text \<open>
  \<^verbatim>\<open>processPending(queries)\<close>: the text given to the wiki page \<^verbatim>\<open>unanswered\<close>. The loop
  goes over the reversed list and skips a query only when it is answered.
\<close>

fun pendingLoop :: "host \<Rightarrow> ouija_query list \<Rightarrow> js_string \<Rightarrow> js_string" where
  "pendingLoop h [] text = text"
| "pendingLoop h (query # rest) text =
     (if answered query then pendingLoop h rest text
      else
        let text = text @ js ''### ['' @ title (post query) @ js '']('' @ url (post query) @
                     js '')'' @ EOL h;
            text = (if length (complete (responses query)) \<noteq> 0
                    then text @ createPendingWikiMarkdown h query else text);
            text = (if length (incomplete (responses query)) \<noteq> 0
                    then text @ createIncompleteWikiMarkdown h query else text)
        in pendingLoop h rest text)"

definition processPending :: "host \<Rightarrow> ouija_query list \<Rightarrow> js_string" where
  "processPending h queries = pendingLoop h (rev queries) []"

text \<open>
  \<^verbatim>\<open>runQuery(post)\<close> builds the query and runs it; what it does to the flair of the post is
  not modelled. The result is the query that \<^verbatim>\<open>processPending\<close> receives.
\<close>

definition runQuery :: "host \<Rightarrow> post \<Rightarrow> ouija_query" where
  "runQuery h p = (let (response, query, reqs) = run h (OuijaQuery p) [] in query)"

section \<open>Notions used to state the properties\<close>

text \<open>
  The responses that a traversal step added: those of the later query beyond the ones the
  earlier query had.
\<close>

definition newComplete :: "ouija_query \<Rightarrow> ouija_query \<Rightarrow> completed list" where
  "newComplete q q' = drop (length (complete (responses q))) (complete (responses q'))"

definition newIncomplete :: "ouija_query \<Rightarrow> ouija_query \<Rightarrow> unfinished list" where
  "newIncomplete q q' = drop (length (incomplete (responses q))) (incomplete (responses q'))"

text \<open>
  \<open>recorded h ls q q'\<close>: the later query differs from the earlier one in its responses
  only, these were appended to, every new spelling starts with \<open>ls\<close>, every new complete
  response ends in a terminator that was not too short, and every new incomplete
  response ends in a letter.
\<close>

definition recorded :: "host \<Rightarrow> js_string list \<Rightarrow> ouija_query \<Rightarrow> ouija_query \<Rightarrow> bool" where
  "recorded h ls q q' \<longleftrightarrow>
     q' = q\<lparr>responses := responses q'\<rparr> \<and>
     complete (responses q') = complete (responses q) @ newComplete q q' \<and>
     incomplete (responses q') = incomplete (responses q) @ newIncomplete q q' \<and>
     (\<forall>r\<in>set (newComplete q q').
        prefix ls (letters r) \<and> ctype (goodbye r) = Goodbye \<and> \<not> minlettersShort h q (letters r)) \<and>
     (\<forall>r\<in>set (newIncomplete q q'). prefix ls (letters r) \<and> ctype (lastComment r) = Letter)"

text \<open>The letters accumulated once a comment has been visited.\<close>

definition lettersAt :: "ouija_comment \<Rightarrow> js_string list \<Rightarrow> js_string list" where
  "lettersAt comment ls = (if ctype comment = Letter then ls @ [proxy_body comment] else ls)"



text \<open>A sibling group given to one duplicate handler, in order.\<close>

definition handleAll :: "ouija_comment list \<Rightarrow> handler \<times> removal list \<Rightarrow> handler \<times> removal list" where
  "handleAll cs st = foldl (\<lambda>st c. handle c st) st cs"

text \<open>
  The first response of a list with the highest score of its terminator: none has a
  higher score, and none before its first occurrence has a score as high.
\<close>

definition isFirstMaximum :: "completed list \<Rightarrow> completed \<Rightarrow> bool" where
  "isFirstMaximum cs r \<longleftrightarrow>
     r \<in> set cs \<and>
     (\<forall>x\<in>set cs. proxy_score (goodbye x) \<le> proxy_score (goodbye r)) \<and>
     (\<forall>x\<in>set (takeWhile (\<lambda>x. x \<noteq> r) cs). proxy_score (goodbye x) < proxy_score (goodbye r))"

text \<open>What the summary holds for one query: the heading, the table of the complete
  sequences when there is one, the table of the incomplete sequences when there is one.\<close>

definition summaryEntry :: "host \<Rightarrow> ouija_query \<Rightarrow> js_string" where
  "summaryEntry h query =
     js ''### ['' @ title (post query) @ js '']('' @ url (post query) @ js '')'' @ EOL h @
     (if complete (responses query) \<noteq> [] then createPendingWikiMarkdown h query else []) @
     (if incomplete (responses query) \<noteq> [] then createIncompleteWikiMarkdown h query else [])"


text \<open>The removal requests a duplicate handler makes for a list of comments.\<close>

definition duplicateRequests :: "ouija_comment list \<Rightarrow> removal list" where
  "duplicateRequests ds = map (\<lambda>x. (snooObj x, js ''duplicate'')) ds"

text \<open>
  What holds of a duplicate handler after the comments \<open>xs\<close> of a sibling group, with
  respect to a comment \<open>a\<close> of body \<open>k\<close>: every comment kept is one of \<open>xs\<close> and is
  kept under its own body; the requests made are duplicate requests for comments of
  \<open>xs\<close> other than \<open>a\<close>, among them every comment of body \<open>k\<close> that is not the
  one kept and was not removed before; \<open>a\<close> is the one kept once it has been seen; and
  some comment is kept for \<open>k\<close> once one of that body has been seen.
\<close>

definition dedupInv ::
    "ouija_comment \<Rightarrow> js_string \<Rightarrow> removal list \<Rightarrow> ouija_comment list \<Rightarrow>
     handler \<times> removal list \<Rightarrow> bool" where
  "dedupInv a k reqs xs st \<longleftrightarrow>
     (\<forall>j x. fst st j = Some x \<longrightarrow> x \<in> set xs \<and> proxy_body x = j) \<and>
     (\<exists>ds. snd st = reqs @ duplicateRequests ds \<and> set ds \<subseteq> set xs \<and> a \<notin> set ds \<and>
        (\<forall>x\<in>set xs. proxy_body x = k \<and> fst st k \<noteq> Some x \<and> \<not> proxy_removed x \<longrightarrow> x \<in> set ds)) \<and>
     (a \<in> set xs \<longrightarrow> fst st k = Some a) \<and>
     ((\<exists>x\<in>set xs. proxy_body x = k) \<longrightarrow> fst st k \<noteq> None)"

section \<open>A host and comments for concrete evaluations\<close>

text \<open>
  \<open>demoHost\<close> has the clock and the environment threshold as arguments. Its case table
  leaves code points outside ASCII alone, its \<^verbatim>\<open>ToNumber\<close> reads strings of decimal
  digits, and its only duration is \<^verbatim>\<open>PT5M\<close>; the concrete evaluations below stay within
  that.
\<close>

definition isDigit :: "code_unit \<Rightarrow> bool" where
  "isDigit c \<longleftrightarrow> 0x30 \<le> c \<and> c \<le> 0x39"

definition decimalNumber :: "js_string \<Rightarrow> js_number" where
  "decimalNumber s =
     (if s \<noteq> [] \<and> list_all isDigit s
      then Finite (of_nat (foldl (\<lambda>n c. 10 * n + (unat c - 48)) 0 s))
      else NaN)"

definition demoHost :: "int \<Rightarrow> js_string option \<Rightarrow> host" where
  "demoHost now env =
     \<lparr> unicodeUpper = (\<lambda>p. p),
       toNumber = decimalNumber,
       duration_ms = (\<lambda>s. if s = js ''PT5M'' then 300000 else 0),
       now_ms = now,
       COMMENT_SCORE_THRESHOLD = env,
       EOL = [0x0A] \<rparr>"

text \<open>A comment that is neither banned nor removed: identifier, body, author, creation
  time, score, replies.\<close>

definition plainComment ::
    "string \<Rightarrow> js_string \<Rightarrow> string \<Rightarrow> int \<Rightarrow> int \<Rightarrow> snoo_comment list \<Rightarrow> snoo_comment" where
  "plainComment i b a t s rs = SnooComment (js i) b (js a) t t s None False rs"

text \<open>A post created at second 100, and a query that holds two complete sequences, scored
  5 and 9.\<close>

definition demoPost :: "js_string \<Rightarrow> js_string \<Rightarrow> snoo_comment list \<Rightarrow> post" where
  "demoPost t s cs =
     \<lparr> title = t, url = js ''https://redd.it/p1/'', selftext = s, created_utc = 100,
       distinguished = None, comments = cs \<rparr>"

definition scoredSequence :: "string \<Rightarrow> int \<Rightarrow> completed" where
  "scoredSequence i s =
     \<lparr> letters = [js ''A''],
       goodbye = OuijaComment (demoHost 0 None) (plainComment i (js ''Goodbye'') ''u2'' 2 s []) \<rparr>"

definition twoSequences :: "config \<Rightarrow> ouija_query" where
  "twoSequences c =
     \<lparr> post = demoPost (js ''Who?'') [] [], config = c,
       responses = \<lparr> complete = [scoredSequence ''g1'' 5, scoredSequence ''g2'' 9], incomplete = [] \<rparr>,
       answered = False, isMeta = False, isModPost = False \<rparr>"

text \<open>A post that asks for five minutes of waiting: letter A, letter B, then a terminator
  scored 12.\<close>

definition pendingPost :: post where
  "pendingPost =
     demoPost (js ''Who?'') (js ''time: 5m'')
       [plainComment ''c1'' (js ''a'') ''u1'' 101 3
          [plainComment ''c2'' (js ''b'') ''u2'' 102 2
             [plainComment ''c3'' (js ''Goodbye'') ''u3'' 103 12 []]]]"


text \<open>A meta post: a top-level comment of one symbol with a reply in plain words, and a
  top-level comment in plain words.\<close>

definition metaPost :: post where
  "metaPost =
     demoPost (js ''[Meta] New rules'') []
       [plainComment ''c1'' (js ''?'') ''u1'' 101 3
          [plainComment ''c2'' (js ''what do you mean'') ''u2'' 102 1 []],
        plainComment ''c3'' (js ''Fine with me'') ''u3'' 103 2 []]"


text \<open>Three top-level comments of body A: the first and the third without replies, created
  at 1 and 2; the second, created at 3, with a reply.\<close>

definition siblingA :: "string \<Rightarrow> int \<Rightarrow> snoo_comment list \<Rightarrow> snoo_comment" where
  "siblingA i t rs = plainComment i (js ''A'') i t 1 rs"

definition threeSiblings :: "snoo_comment list" where
  "threeSiblings =
     [siblingA ''a1'' 1 [],
      siblingA ''a2'' 3 [plainComment ''b1'' (js ''B'') ''u9'' 4 1 []],
      siblingA ''a3'' 2 []]"

section \<open>Auxiliary facts\<close>






lemma recordedI:
  assumes "q' = q\<lparr>responses := responses q'\<rparr>"
    and "complete (responses q') = complete (responses q) @ cs"
    and "incomplete (responses q') = incomplete (responses q) @ us"
    and "\<forall>r\<in>set cs. prefix ls (letters r) \<and> ctype (goodbye r) = Goodbye \<and> \<not> minlettersShort h q (letters r)"
    and "\<forall>r\<in>set us. prefix ls (letters r) \<and> ctype (lastComment r) = Letter"
  shows "recorded h ls q q'"
  using assms by (simp add: recorded_def newComplete_def newIncomplete_def)

lemma minlettersShort_config: "config q' = config q \<Longrightarrow> minlettersShort h q' = minlettersShort h q"
  by (rule ext) (simp add: minlettersShort_def)

lemma recorded_config: "recorded h ls q q' \<Longrightarrow> config q' = config q \<and> post q' = post q \<and> answered q' = answered q \<and> isMeta q' = isMeta q \<and> isModPost q' = isModPost q"
proof -
  assume "recorded h ls q q'"
  then have e: "q' = q\<lparr>responses := responses q'\<rparr>" by (simp add: recorded_def)
  show ?thesis by (intro conjI; subst e; simp)
qed

lemma recorded_refl: "recorded h ls q q"
  by (rule recordedI [where cs = "[]" and us = "[]"]) simp_all

lemma recorded_trans:
  assumes a: "recorded h ls q q'" and b: "recorded h ls q' q''"
  shows "recorded h ls q q''"
proof -
  from a have c: "config q' = config q" by (simp add: recorded_config)
  from a have e1: "q' = q\<lparr>responses := responses q'\<rparr>" by (simp add: recorded_def)
  from b have e2: "q'' = q'\<lparr>responses := responses q''\<rparr>" by (simp add: recorded_def)
  have e: "q'' = q\<lparr>responses := responses q''\<rparr>"
    by (subst e2, subst e1) simp
  show ?thesis
  proof (rule recordedI [where cs = "newComplete q q' @ newComplete q' q''"
          and us = "newIncomplete q q' @ newIncomplete q' q''"])
    show "q'' = q\<lparr>responses := responses q''\<rparr>" by (rule e)
    show "complete (responses q'') = complete (responses q) @ newComplete q q' @ newComplete q' q''"
      using a b by (simp add: recorded_def)
    show "incomplete (responses q'') = incomplete (responses q) @ newIncomplete q q' @ newIncomplete q' q''"
      using a b by (simp add: recorded_def)
    show "\<forall>r\<in>set (newComplete q q' @ newComplete q' q'').
       prefix ls (letters r) \<and> ctype (goodbye r) = Goodbye \<and> \<not> minlettersShort h q (letters r)"
      using a b minlettersShort_config [OF c, of h] by (auto simp: recorded_def)
    show "\<forall>r\<in>set (newIncomplete q q' @ newIncomplete q' q''). prefix ls (letters r) \<and> ctype (lastComment r) = Letter"
      using a b by (auto simp: recorded_def)
  qed
qed

lemma recorded_weaken: "recorded h (ls @ xs) q q' \<Longrightarrow> recorded h ls q q'"
  unfolding recorded_def by (meson prefix_order.order_trans prefixI)

lemma recorded_pushComplete:
  "ctype comment = Goodbye \<Longrightarrow> \<not> minlettersShort h q ls \<Longrightarrow>
   recorded h ls q (pushComplete \<lparr> letters = ls, goodbye = comment \<rparr> q)"
  by (rule recordedI [where cs = "[\<lparr> letters = ls, goodbye = comment \<rparr>]" and us = "[]"])
     (simp_all add: pushComplete_def)

lemma recorded_pushIncomplete:
  "ctype comment = Letter \<Longrightarrow>
   recorded h ls q (pushIncomplete \<lparr> letters = ls, lastComment = comment \<rparr> q)"
  by (rule recordedI [where cs = "[]" and us = "[\<lparr> letters = ls, lastComment = comment \<rparr>]"])
     (simp_all add: pushIncomplete_def)

lemma collect_recorded:
  "\<forall>b q' reqs'. collectResponses h comment ls st = (b, q', reqs') \<longrightarrow>
      recorded h (lettersAt comment ls) (fst st) q'"
  "\<forall>d' hc' q' reqs'. collectReplies h comment ls rs st4 = (d', hc', q', reqs') \<longrightarrow>
      recorded h ls (fst (snd (snd st4))) q'"
proof (induction h comment ls st and h comment ls rs st4 rule: collectResponses_collectReplies.induct)
  case (1 h comment ls q reqs)
  show ?case
  proof (cases "ctype comment")
    case Letter
    show ?thesis
    proof (intro allI impI)
      fix b q' reqs'
      assume eq: "collectResponses h comment ls (q, reqs) = (b, q', reqs')"
      obtain d hc q1 reqs1 where r: "collectReplies h comment (ls @ [proxy_body comment])
            (snoo_replies (snooObj comment)) (Map.empty, False, q, reqs) = (d, hc, q1, reqs1)"
        by (metis prod_cases4)
      from "1.IH" [OF Letter refl] r have rec1: "recorded h (ls @ [proxy_body comment]) q q1"
        by simp
      show "recorded h (lettersAt comment ls) (fst (q, reqs)) q'"
      proof (cases hc)
        case True
        with eq r Letter have "q' = q1" by simp
        with rec1 Letter show ?thesis by (simp add: lettersAt_def)
      next
        case False
        with eq r Letter have "q' = pushIncomplete \<lparr> letters = ls @ [proxy_body comment], lastComment = comment \<rparr> q1"
          by simp
        with rec1 Letter show ?thesis
          using recorded_trans [OF rec1 recorded_pushIncomplete [OF Letter]]
          by (simp add: lettersAt_def)
      qed
    qed
  next
    case Goodbye
    then show ?thesis
      by (auto simp: lettersAt_def recorded_refl recorded_pushComplete)
  next
    case Invalid
    then show ?thesis
      by (auto simp: lettersAt_def recorded_refl)
  qed
next
  case (2 h comment ls st)
  show ?case by (cases st) (auto simp: recorded_refl)
next
  case (3 h comment ls r rs dupHandler hasChildren q reqs)
  show ?case
  proof (cases "proxy_author (OuijaComment h r) = proxy_author comment")
    case True
    with "3.IH"(1) [OF refl True] show ?thesis by simp
  next
    case False
    show ?thesis
    proof (intro allI impI)
      fix d' hc' q' reqs'
      assume eq: "collectReplies h comment ls (r # rs) (dupHandler, hasChildren, q, reqs) = (d', hc', q', reqs')"
      obtain b q1 reqs1 where c: "collectResponses h (OuijaComment h r) ls (q, reqs) = (b, q1, reqs1)"
        by (metis prod_cases3)
      obtain d2 reqs2 where hd: "handle (OuijaComment h r) (dupHandler, reqs1) = (d2, reqs2)"
        by (metis surj_pair)
      from "3.IH"(2) [OF refl False] c
      have r1: "recorded h ls q q1"
        by (auto simp: lettersAt_def dest: recorded_weaken split: if_splits)
      from eq c hd False
      have "collectReplies h comment ls rs (d2, if b then True else hasChildren, q1, reqs2) = (d', hc', q', reqs')"
        by simp
      with "3.IH"(3) [OF refl False c [symmetric] refl refl refl hd [symmetric] refl]
      have "recorded h ls q1 q'" by simp
      with r1 show "recorded h ls (fst (snd (snd (dupHandler, hasChildren, q, reqs)))) q'"
        by (simp add: recorded_trans)
    qed
  qed
qed


lemma run_loop_recorded:
  "run_loop h cs (d, q, reqs) = (d', q', reqs') \<Longrightarrow> recorded h [] q q'"
proof (induction cs arbitrary: d q reqs)
  case Nil
  then show ?case by (simp add: recorded_refl)
next
  case (Cons c cs)
  show ?case
  proof (cases "ctype (OuijaComment h c) = Invalid")
    case True
    with Cons.prems Cons.IH show ?thesis by (simp add: Let_def)
  next
    case False
    obtain b q1 reqs1 where c: "collectResponses h (OuijaComment h c) [] (q, reqs) = (b, q1, reqs1)"
      by (metis prod_cases3)
    obtain d2 reqs2 where hd: "handle (OuijaComment h c) (d, reqs1) = (d2, reqs2)"
      by (metis surj_pair)
    from collect_recorded(1) [of h "OuijaComment h c" "[]" "(q, reqs)"] c
    have "recorded h (lettersAt (OuijaComment h c) []) q q1" by simp
    then have r1: "recorded h [] q q1"
      using recorded_weaken [of h "[]"] by (auto simp: lettersAt_def split: if_splits)
    from Cons.prems False c hd have "run_loop h cs (d2, q1, reqs2) = (d', q', reqs')"
      by (simp add: Let_def)
    from Cons.IH [OF this] r1 show ?thesis by (rule recorded_trans [rotated])
  qed
qed













lemma isFirstMaximum_split:
  "isFirstMaximum cs r \<longleftrightarrow>
     (\<exists>before after. cs = before @ r # after \<and>
        (\<forall>x\<in>set before. proxy_score (goodbye x) < proxy_score (goodbye r)) \<and>
        (\<forall>x\<in>set after. proxy_score (goodbye x) \<le> proxy_score (goodbye r)))"
proof
  assume m: "isFirstMaximum cs r"
  let ?P = "\<lambda>x. x \<noteq> r"
  from m have "r \<in> set cs" by (simp add: isFirstMaximum_def)
  then have ne: "dropWhile ?P cs \<noteq> []" by auto
  with hd_dropWhile [of ?P cs] have "hd (dropWhile ?P cs) = r" by blast
  with ne have d: "dropWhile ?P cs = r # tl (dropWhile ?P cs)"
    by (metis list.collapse)
  have "cs = takeWhile ?P cs @ dropWhile ?P cs" by simp
  with d have c: "cs = takeWhile ?P cs @ r # tl (dropWhile ?P cs)" by simp
  then have "set (tl (dropWhile ?P cs)) \<subseteq> set cs"
    by (metis Un_iff list.set_intros(2) set_append subsetI)
  with m have "\<forall>x\<in>set (tl (dropWhile ?P cs)). proxy_score (goodbye x) \<le> proxy_score (goodbye r)"
    unfolding isFirstMaximum_def by blast
  moreover from m
  have "\<forall>x\<in>set (takeWhile ?P cs). proxy_score (goodbye x) < proxy_score (goodbye r)"
    by (simp add: isFirstMaximum_def)
  ultimately show "\<exists>before after. cs = before @ r # after \<and>
        (\<forall>x\<in>set before. proxy_score (goodbye x) < proxy_score (goodbye r)) \<and>
        (\<forall>x\<in>set after. proxy_score (goodbye x) \<le> proxy_score (goodbye r))"
    using c by blast
next
  assume "\<exists>before after. cs = before @ r # after \<and>
        (\<forall>x\<in>set before. proxy_score (goodbye x) < proxy_score (goodbye r)) \<and>
        (\<forall>x\<in>set after. proxy_score (goodbye x) \<le> proxy_score (goodbye r))"
  then obtain before after where c: "cs = before @ r # after"
    and b: "\<forall>x\<in>set before. proxy_score (goodbye x) < proxy_score (goodbye r)"
    and a: "\<forall>x\<in>set after. proxy_score (goodbye x) \<le> proxy_score (goodbye r)"
    by blast
  from b have "\<forall>x\<in>set before. x \<noteq> r" by auto
  then have t: "takeWhile (\<lambda>x. x \<noteq> r) cs = before"
    unfolding c by simp
  have le: "\<forall>x\<in>set cs. proxy_score (goodbye x) \<le> proxy_score (goodbye r)"
    unfolding c using a b by (auto intro: less_imp_le)
  show "isFirstMaximum cs r"
    unfolding isFirstMaximum_def t using b le c by simp
qed

lemma topLoop_snoc:
  "topLoop (xs @ [x]) acc =
     (case topLoop xs acc of
        None \<Rightarrow> Some x
      | Some t \<Rightarrow> if proxy_score (goodbye x) > proxy_score (goodbye t) then Some x else Some t)"
  by (induction xs arbitrary: acc) (auto split: option.splits)

lemma topLoop_None: "topLoop xs None = None \<longleftrightarrow> xs = []"
  by (induction xs rule: rev_induct) (auto simp: topLoop_snoc split: option.splits)

lemma isFirstMaximum_max:
  "isFirstMaximum cs r \<Longrightarrow> x \<in> set cs \<Longrightarrow> proxy_score (goodbye x) \<le> proxy_score (goodbye r)"
  unfolding isFirstMaximum_split by force

lemma isFirstMaximum_snoc:
  "isFirstMaximum (xs @ [x]) r \<longleftrightarrow>
     (isFirstMaximum xs r \<and> proxy_score (goodbye x) \<le> proxy_score (goodbye r)) \<or>
     (r = x \<and> (\<forall>y\<in>set xs. proxy_score (goodbye y) < proxy_score (goodbye x)))"
proof
  assume "isFirstMaximum (xs @ [x]) r"
  then obtain before after where d: "xs @ [x] = before @ r # after"
    and b: "\<forall>y\<in>set before. proxy_score (goodbye y) < proxy_score (goodbye r)"
    and a: "\<forall>y\<in>set after. proxy_score (goodbye y) \<le> proxy_score (goodbye r)"
    unfolding isFirstMaximum_split by blast
  show "(isFirstMaximum xs r \<and> proxy_score (goodbye x) \<le> proxy_score (goodbye r)) \<or>
     (r = x \<and> (\<forall>y\<in>set xs. proxy_score (goodbye y) < proxy_score (goodbye x)))"
  proof (cases after rule: rev_cases)
    case Nil
    with d have "xs = before" "r = x" by auto
    with b show ?thesis by simp
  next
    case (snoc after' z)
    with d have "xs = before @ r # after'" "z = x" by auto
    with a b snoc show ?thesis unfolding isFirstMaximum_split by auto
  qed
next
  assume "(isFirstMaximum xs r \<and> proxy_score (goodbye x) \<le> proxy_score (goodbye r)) \<or>
     (r = x \<and> (\<forall>y\<in>set xs. proxy_score (goodbye y) < proxy_score (goodbye x)))"
  then show "isFirstMaximum (xs @ [x]) r"
  proof
    assume h: "isFirstMaximum xs r \<and> proxy_score (goodbye x) \<le> proxy_score (goodbye r)"
    then obtain before after where "xs = before @ r # after"
      "\<forall>y\<in>set before. proxy_score (goodbye y) < proxy_score (goodbye r)"
      "\<forall>y\<in>set after. proxy_score (goodbye y) \<le> proxy_score (goodbye r)"
      unfolding isFirstMaximum_split by blast
    with h show ?thesis
      unfolding isFirstMaximum_split
      by (intro exI [of _ before] exI [of _ "after @ [x]"]) auto
  next
    assume "r = x \<and> (\<forall>y\<in>set xs. proxy_score (goodbye y) < proxy_score (goodbye x))"
    then show ?thesis
      unfolding isFirstMaximum_split
      by (intro exI [of _ xs] exI [of _ "[]"]) auto
  qed
qed

lemma isFirstMaximum_Nil: "\<not> isFirstMaximum [] r"
  by (simp add: isFirstMaximum_split)

lemma isFirstMaximum_single: "isFirstMaximum [x] r \<longleftrightarrow> r = x"
  using isFirstMaximum_snoc [of "[]" x r] by (auto simp: isFirstMaximum_Nil)

lemma topLoop_first_maximum: "topLoop cs None = Some r \<longleftrightarrow> isFirstMaximum cs r"
proof (induction cs arbitrary: r rule: rev_induct)
  case Nil
  then show ?case by (simp add: isFirstMaximum_Nil)
next
  case (snoc x xs)
  show ?case
  proof (cases "topLoop xs None")
    case None
    then have "xs = []" by (simp add: topLoop_None)
    then show ?thesis
      by (auto simp: isFirstMaximum_single)
  next
    case (Some t)
    have t: "isFirstMaximum xs t"
      using snoc.IH [of t] Some by simp
    have u: "\<And>r. isFirstMaximum xs r \<Longrightarrow> r = t"
      by (metis snoc.IH Some option.inject)
    from t have tin: "t \<in> set xs" unfolding isFirstMaximum_split by auto
    have iff: "isFirstMaximum xs r \<longleftrightarrow> r = t" using t u by blast
    show ?thesis
    proof (cases "proxy_score (goodbye x) > proxy_score (goodbye t)")
      case True
      have "\<forall>y\<in>set xs. proxy_score (goodbye y) < proxy_score (goodbye x)"
        using isFirstMaximum_max [OF t] True by fastforce
      then have rhs: "isFirstMaximum (xs @ [x]) r \<longleftrightarrow> r = x"
        unfolding isFirstMaximum_snoc iff using True by auto
      have "topLoop (xs @ [x]) None = Some x"
        using Some True by (simp add: topLoop_snoc)
      with rhs show ?thesis by auto
    next
      case False
      have "\<not> (\<forall>y\<in>set xs. proxy_score (goodbye y) < proxy_score (goodbye x))"
        using tin False by auto
      then have rhs: "isFirstMaximum (xs @ [x]) r \<longleftrightarrow> r = t"
        unfolding isFirstMaximum_snoc iff using False by auto
      have "topLoop (xs @ [x]) None = Some t"
        using Some False by (simp add: topLoop_snoc)
      with rhs show ?thesis by auto
    qed
  qed
qed


lemma pendingLoop_entries:
  "pendingLoop h qs t = t @ concat (map (summaryEntry h) (filter (\<lambda>q. \<not> answered q) qs))"
  by (induction qs arbitrary: t) (simp_all add: summaryEntry_def Let_def)

lemma run_answered:
  assumes "\<not> answered q"
  shows "answered (fst (snd (run h q reqs))) \<longleftrightarrow> fst (run h q reqs) \<noteq> None"
proof -
  obtain d q' reqs' where l: "run_loop h (comments (post q)) (Map.empty, q, reqs) = (d, q', reqs')"
    by (metis prod_cases3)
  from run_loop_recorded [OF l] assms have "\<not> answered q'" by (simp add: recorded_config)
  with l show ?thesis by (simp add: run_def Let_def)
qed

lemma run_pending:
  assumes "hasTimeLeft h q"
  shows "fst (run h q reqs) = None"
proof -
  obtain d q' reqs' where l: "run_loop h (comments (post q)) (Map.empty, q, reqs) = (d, q', reqs')"
    by (metis prod_cases3)
  have "hasTimeLeft h q' = hasTimeLeft h q"
    using recorded_config [OF run_loop_recorded [OF l]]
    by (simp add: hasTimeLeft_def Let_def split: option.splits)
  with assms have "getResponse h q' = None" by (simp add: getResponse_def)
  with l show ?thesis by (simp add: run_def)
qed


lemma surrogate_not_space: "isHighSurrogate a \<or> isLowSurrogate a \<Longrightarrow> \<not> isWhiteSpace a"
  unfolding isHighSurrogate_def isLowSurrogate_def isWhiteSpace_def isLineTerminator_def
  by (auto simp: word_le_nat_alt)

















lemma remove_duplicate:
  "remove (js ''duplicate'') x (reqs @ duplicateRequests ds) =
     reqs @ duplicateRequests (if proxy_removed x then ds else ds @ [x])"
  by (simp add: remove_def duplicateRequests_def)

lemma handleAll_snoc: "handleAll (xs @ [x]) st = handle x (handleAll xs st)"
  by (simp add: handleAll_def)

lemma handleAll_Nil: "handleAll [] st = st"
  by (simp add: handleAll_def)

lemma handle_wf:
  assumes "\<forall>j y. kept j = Some y \<longrightarrow> y \<in> set xs \<and> proxy_body y = j"
  shows "\<forall>j y. fst (handle x (kept, rq)) j = Some y \<longrightarrow> y \<in> set (xs @ [x]) \<and> proxy_body y = j"
  using assms by (auto simp: handle_def Let_def split: option.splits if_splits)

lemma dedupInvI:
  assumes "\<forall>j x. kept j = Some x \<longrightarrow> x \<in> set xs \<and> proxy_body x = j"
    and "rq = reqs @ duplicateRequests ds" and "set ds \<subseteq> set xs" and "a \<notin> set ds"
    and "\<forall>x\<in>set xs. proxy_body x = k \<and> kept k \<noteq> Some x \<and> \<not> proxy_removed x \<longrightarrow> x \<in> set ds"
    and "a \<in> set xs \<longrightarrow> kept k = Some a"
    and "(\<exists>x\<in>set xs. proxy_body x = k) \<longrightarrow> kept k \<noteq> None"
  shows "dedupInv a k reqs xs (kept, rq)"
proof -
  have "\<exists>ds. rq = reqs @ duplicateRequests ds \<and> set ds \<subseteq> set xs \<and> a \<notin> set ds \<and>
        (\<forall>x\<in>set xs. proxy_body x = k \<and> kept k \<noteq> Some x \<and> \<not> proxy_removed x \<longrightarrow> x \<in> set ds)"
    using assms(2-5) by (intro exI [of _ ds]) (intro conjI)
  with assms(1,6,7) show ?thesis
    unfolding dedupInv_def fst_conv snd_conv by (intro conjI)
qed

lemma handle_step:
  assumes inv: "dedupInv a k reqs xs (kept, rq)"
    and new: "x \<notin> set xs"
    and key: "proxy_body a = k"
    and childless: "\<forall>y\<in>set (xs @ [x]). proxy_body y = k \<longrightarrow> \<not> hasReplies y"
    and earliest: "\<forall>y\<in>set (xs @ [x]). proxy_body y = k \<and> y \<noteq> a \<longrightarrow> proxy_created a < proxy_created y"
  shows "dedupInv a k reqs (xs @ [x]) (handle x (kept, rq))"
proof -
  from inv have wf: "\<forall>j y. kept j = Some y \<longrightarrow> y \<in> set xs \<and> proxy_body y = j"
    by (simp add: dedupInv_def)
  from inv obtain ds where rq: "rq = reqs @ duplicateRequests ds"
    and sub: "set ds \<subseteq> set xs" and a_ds: "a \<notin> set ds"
    and mem: "\<forall>y\<in>set xs. proxy_body y = k \<and> kept k \<noteq> Some y \<and> \<not> proxy_removed y \<longrightarrow> y \<in> set ds"
    unfolding dedupInv_def by auto
  from inv have a_kept: "a \<in> set xs \<longrightarrow> kept k = Some a"
    and some: "(\<exists>y\<in>set xs. proxy_body y = k) \<longrightarrow> kept k \<noteq> None"
    by (simp_all add: dedupInv_def)
  have wf': "\<forall>j y. fst (handle x (kept, rq)) j = Some y \<longrightarrow> y \<in> set (xs @ [x]) \<and> proxy_body y = j"
    by (rule handle_wf [OF wf])
  let ?j = "proxy_body x"
  show ?thesis
  proof (cases "kept ?j")
    case None
    then have h: "handle x (kept, rq) = (kept(?j \<mapsto> x), rq)"
      by (simp add: handle_def)
    have 2: "\<forall>y\<in>set (xs @ [x]). proxy_body y = k \<and> (kept(?j \<mapsto> x)) k \<noteq> Some y \<and> \<not> proxy_removed y \<longrightarrow> y \<in> set ds"
      using mem some None by (auto split: if_splits)
    have 3: "a \<in> set (xs @ [x]) \<longrightarrow> (kept(?j \<mapsto> x)) k = Some a"
      using a_kept None key by auto
    have 4: "(\<exists>y\<in>set (xs @ [x]). proxy_body y = k) \<longrightarrow> (kept(?j \<mapsto> x)) k \<noteq> None"
      using some by auto
    have w: "\<forall>j y. (kept(?j \<mapsto> x)) j = Some y \<longrightarrow> y \<in> set (xs @ [x]) \<and> proxy_body y = j"
      using wf' unfolding h fst_conv .
    have 1: "set ds \<subseteq> set (xs @ [x])" using sub by auto
    show ?thesis unfolding h by (rule dedupInvI [OF w rq 1 a_ds 2 3 4])
  next
    case (Some e)
    with wf have e_in: "e \<in> set xs" and e_key: "proxy_body e = ?j" by auto
    from e_in new have e_x: "e \<noteq> x" by auto
    show ?thesis
    proof (cases "proxy_created x > proxy_created e \<and> \<not> hasReplies x")
      case True
      let ?ds = "if proxy_removed x then ds else ds @ [x]"
      from Some True have h: "handle x (kept, rq) = (kept, reqs @ duplicateRequests ?ds)"
        by (simp add: handle_def rq remove_duplicate)
      have x_a: "x \<noteq> a"
      proof
        assume "x = a"
        with key e_key have "proxy_body e = k" by simp
        with earliest e_in e_x \<open>x = a\<close> have "proxy_created a < proxy_created e" by auto
        with True \<open>x = a\<close> show False by simp
      qed
      have 1: "set ?ds \<subseteq> set (xs @ [x])" using sub by auto
      have 5: "a \<notin> set ?ds" using a_ds x_a by auto
      have 2: "\<forall>y\<in>set (xs @ [x]). proxy_body y = k \<and> kept k \<noteq> Some y \<and> \<not> proxy_removed y \<longrightarrow> y \<in> set ?ds"
        using mem by auto
      have 3: "a \<in> set (xs @ [x]) \<longrightarrow> kept k = Some a"
        using a_kept x_a by auto
      have 4: "(\<exists>y\<in>set (xs @ [x]). proxy_body y = k) \<longrightarrow> kept k \<noteq> None"
        using some Some by auto
      have w: "\<forall>j y. kept j = Some y \<longrightarrow> y \<in> set (xs @ [x]) \<and> proxy_body y = j"
        using wf' unfolding h fst_conv .
      show ?thesis unfolding h by (rule dedupInvI [OF w refl 1 5 2 3 4])
    next
      case False
      note notlater = this
      then have c: "(proxy_created e < proxy_created x \<and> \<not> hasReplies x) = False" by simp
      show ?thesis
      proof (cases "hasReplies e")
        case False
        note noreplies = this
        let ?ds = "if proxy_removed e then ds else ds @ [e]"
        from Some noreplies
        have h: "handle x (kept, rq) = (kept(?j \<mapsto> x), reqs @ duplicateRequests ?ds)"
          by (simp add: handle_def rq remove_duplicate c)
        have e_a: "e \<noteq> a"
        proof
          assume "e = a"
          with e_key key have xk: "proxy_body x = k" by simp
          with earliest e_x \<open>e = a\<close> have "proxy_created a < proxy_created x" by auto
          moreover from childless xk have "\<not> hasReplies x" by auto
          ultimately show False using notlater \<open>e = a\<close> by simp
        qed
        have 1: "set ?ds \<subseteq> set (xs @ [x])" using sub e_in by auto
        have 5: "a \<notin> set ?ds" using a_ds e_a by auto
        have 2: "\<forall>y\<in>set (xs @ [x]). proxy_body y = k \<and> (kept(?j \<mapsto> x)) k \<noteq> Some y \<and> \<not> proxy_removed y \<longrightarrow> y \<in> set ?ds"
          using mem Some by (auto split: if_splits)
        have 3: "a \<in> set (xs @ [x]) \<longrightarrow> (kept(?j \<mapsto> x)) k = Some a"
          using a_kept Some e_a key by auto
        have 4: "(\<exists>y\<in>set (xs @ [x]). proxy_body y = k) \<longrightarrow> (kept(?j \<mapsto> x)) k \<noteq> None"
          using some by auto
        have w: "\<forall>j y. (kept(?j \<mapsto> x)) j = Some y \<longrightarrow> y \<in> set (xs @ [x]) \<and> proxy_body y = j"
          using wf' unfolding h fst_conv .
        show ?thesis unfolding h by (rule dedupInvI [OF w refl 1 5 2 3 4])
      next
        case True
        from Some True have h: "handle x (kept, rq) = (kept, rq)"
          by (simp add: handle_def c)
        have jk: "?j \<noteq> k"
        proof
          assume "?j = k"
          with e_key childless e_in have "\<not> hasReplies e" by auto
          with True show False by simp
        qed
        have x_a: "x \<noteq> a" using jk key by auto
        have 2: "\<forall>y\<in>set (xs @ [x]). proxy_body y = k \<and> kept k \<noteq> Some y \<and> \<not> proxy_removed y \<longrightarrow> y \<in> set ds"
          using mem jk by auto
        have 3: "a \<in> set (xs @ [x]) \<longrightarrow> kept k = Some a"
          using a_kept x_a by auto
        have 4: "(\<exists>y\<in>set (xs @ [x]). proxy_body y = k) \<longrightarrow> kept k \<noteq> None"
          using some jk by auto
        have w: "\<forall>j y. kept j = Some y \<longrightarrow> y \<in> set (xs @ [x]) \<and> proxy_body y = j"
          using wf' unfolding h fst_conv .
        have 1: "set ds \<subseteq> set (xs @ [x])" using sub by auto
        show ?thesis unfolding h by (rule dedupInvI [OF w rq 1 a_ds 2 3 4])
      qed
    qed
  qed
qed

lemma handleAll_inv:
  assumes "distinct cs" and "proxy_body a = k"
    and "\<forall>y\<in>set cs. proxy_body y = k \<longrightarrow> \<not> hasReplies y"
    and "\<forall>y\<in>set cs. proxy_body y = k \<and> y \<noteq> a \<longrightarrow> proxy_created a < proxy_created y"
  shows "dedupInv a k reqs cs (handleAll cs (Map.empty, reqs))"
  using assms
proof (induction cs rule: rev_induct)
  case Nil
  have "reqs = reqs @ duplicateRequests []" by (simp add: duplicateRequests_def)
  then show ?case unfolding dedupInv_def handleAll_Nil by auto
next
  case (snoc x xs)
  then have inv: "dedupInv a k reqs xs (handleAll xs (Map.empty, reqs))" by auto
  from snoc.prems have new: "x \<notin> set xs" by simp
  obtain kept rq where st: "handleAll xs (Map.empty, reqs) = (kept, rq)" by (metis surj_pair)
  show ?case
    unfolding handleAll_snoc st
    by (rule handle_step [OF inv [unfolded st] new snoc.prems(2) snoc.prems(3) snoc.prems(4)])
qed

lemma handleAll_wf:
  "\<forall>j y. fst (handleAll cs (Map.empty, reqs)) j = Some y \<longrightarrow> y \<in> set cs \<and> proxy_body y = j"
proof (induction cs rule: rev_induct)
  case Nil
  then show ?case by (simp add: handleAll_Nil)
next
  case (snoc x xs)
  obtain kept rq where st: "handleAll xs (Map.empty, reqs) = (kept, rq)" by (metis surj_pair)
  from snoc show ?case unfolding handleAll_snoc st by (intro handle_wf) simp
qed

section \<open>The claims\<close>






text \<open>
  C1. When the evaluation is not pending and the effective threshold (the configured
  \<^verbatim>\<open>minscore\<close> when there is one, the environment threshold otherwise) reads as the
  number \<open>t\<close>, the response returned is the complete sequence whose terminator has the
  highest score, the first such in traversal order, if that score is at least \<open>t\<close>, and
  there is no winner otherwise.
\<close>

theorem winner_is_first_maximum_reaching_threshold:
  assumes "\<not> hasTimeLeft h q" and "toNumeric h (threshold h q) = Finite t"
  shows "(getResponse h q = Some r \<longleftrightarrow>
            isFirstMaximum (complete (responses q)) r \<and> t \<le> of_int (proxy_score (goodbye r))) \<and>
         threshold h q =
           (case config q (js ''minscore'') of
              None \<Rightarrow> COMMENT_SCORE_THRESHOLD h
            | Some m \<Rightarrow> if m \<noteq> [] then Some m else COMMENT_SCORE_THRESHOLD h)"
proof -
  have ge: "js_ge (number s) (Finite t) \<longleftrightarrow> t \<le> of_int s" for s
    by (auto simp: js_ge_def number_def)
  have thr: "threshold h q =
           (case config q (js ''minscore'') of
              None \<Rightarrow> COMMENT_SCORE_THRESHOLD h
            | Some m \<Rightarrow> if m \<noteq> [] then Some m else COMMENT_SCORE_THRESHOLD h)"
    by (simp add: threshold_def truthy_def split: option.splits)
  have "getResponse h q = Some r \<longleftrightarrow>
            isFirstMaximum (complete (responses q)) r \<and> t \<le> of_int (proxy_score (goodbye r))"
    using assms
    by (auto simp: getResponse_def getTopCompletedResponse_def ge topLoop_first_maximum [symmetric]
        split: option.splits)
  with thr show ?thesis by simp
qed

theorem winner_is_first_maximum_reaching_threshold_witness:
  "\<not> hasTimeLeft (demoHost 0 (Some (js ''8''))) (twoSequences Map.empty) \<and>
   toNumeric (demoHost 0 (Some (js ''8'')))
     (threshold (demoHost 0 (Some (js ''8''))) (twoSequences Map.empty)) = Finite 8 \<and>
   getResponse (demoHost 0 (Some (js ''8''))) (twoSequences Map.empty) =
     Some (scoredSequence ''g2'' 9) \<and>
   \<not> hasTimeLeft (demoHost 0 (Some (js ''8''))) (twoSequences [js ''minscore'' \<mapsto> js ''10'']) \<and>
   toNumeric (demoHost 0 (Some (js ''8'')))
     (threshold (demoHost 0 (Some (js ''8''))) (twoSequences [js ''minscore'' \<mapsto> js ''10''])) =
     Finite 10 \<and>
   getResponse (demoHost 0 (Some (js ''8''))) (twoSequences [js ''minscore'' \<mapsto> js ''10'']) = None"
proof -
  let ?H = "demoHost 0 (Some (js ''8''))"
  let ?Q8 = "twoSequences Map.empty"
  let ?Q10 = "twoSequences [js ''minscore'' \<mapsto> js ''10'']"
  have score: "proxy_score (goodbye (scoredSequence i s)) = s" for i s
    by (simp add: scoredSequence_def proxy_score_def OuijaComment_def plainComment_def Let_def)
  have time: "\<not> hasTimeLeft ?H (twoSequences c)" if "c (js ''time'') = None" for c
    using that by (simp add: hasTimeLeft_def twoSequences_def)
  have t8: "\<not> hasTimeLeft ?H ?Q8" by (rule time) simp
  have t10: "\<not> hasTimeLeft ?H ?Q10" by (rule time) (simp add: js_def)
  have n8: "toNumeric ?H (threshold ?H ?Q8) = Finite 8"
    by (simp add: toNumeric_def threshold_def twoSequences_def truthy_def demoHost_def
        decimalNumber_def js_def isDigit_def)
  have n10: "toNumeric ?H (threshold ?H ?Q10) = Finite 10"
    by (simp add: toNumeric_def threshold_def twoSequences_def truthy_def demoHost_def
        decimalNumber_def js_def isDigit_def)
  have first: "isFirstMaximum (complete (responses (twoSequences c))) (scoredSequence ''g2'' 9)" for c
    unfolding isFirstMaximum_split twoSequences_def
    by (intro exI [of _ "[scoredSequence ''g1'' 5]"] exI [of _ "[]"]) (simp add: score)
  have low: "proxy_score (goodbye r) \<le> 9"
    if "isFirstMaximum (complete (responses (twoSequences c))) r" for r c
  proof -
    from that have "r \<in> set (complete (responses (twoSequences c)))"
      unfolding isFirstMaximum_split by auto
    then show ?thesis by (auto simp: twoSequences_def score)
  qed
  have win: "getResponse ?H ?Q8 = Some (scoredSequence ''g2'' 9)"
    using winner_is_first_maximum_reaching_threshold [OF t8 n8, of "scoredSequence ''g2'' 9"] first
    by (simp add: score)
  have "getResponse ?H ?Q10 \<noteq> Some r" for r
    using winner_is_first_maximum_reaching_threshold [OF t10 n10, of r] low [of _ r] by fastforce
  then have none: "getResponse ?H ?Q10 = None"
    by (cases "getResponse ?H ?Q10") auto
  from t8 n8 win t10 n10 none show ?thesis by blast
qed

text \<open>
  C2. When the configuration names a wait and the clock is strictly before the creation
  time of the submission plus that wait, the query has time left, the decision returns no
  winner, and so does the whole run, whatever was collected. When no wait is configured,
  the query never has time left.
\<close>

theorem pending_returns_no_winner:
  "(config q (js ''time'') = Some t \<and> t \<noteq> [] \<and>
      now_ms h < created_utc (post q) * 1000 + duration_ms h (js ''PT'' @ toUpperCase h t) \<longrightarrow>
      hasTimeLeft h q \<and> getResponse h q = None \<and> fst (run h q reqs) = None) \<and>
   (config q (js ''time'') = None \<longrightarrow> \<not> hasTimeLeft h q)"
proof -
  have p: "hasTimeLeft h q"
    if "config q (js ''time'') = Some t" "t \<noteq> []"
      "now_ms h < created_utc (post q) * 1000 + duration_ms h (js ''PT'' @ toUpperCase h t)"
    using that by (simp add: hasTimeLeft_def)
  have n: "\<not> hasTimeLeft h q" if "config q (js ''time'') = None"
    using that by (simp add: hasTimeLeft_def)
  have g: "getResponse h q = None" if "hasTimeLeft h q"
    using that by (simp add: getResponse_def)
  from p run_pending [of h q reqs] n g show ?thesis by blast
qed

theorem pending_returns_no_winner_witness:
  "config (OuijaQuery pendingPost) (js ''time'') = Some (js ''5m'') \<and> js ''5m'' \<noteq> [] \<and>
   now_ms (demoHost 1000 (Some (js ''10''))) <
     created_utc (post (OuijaQuery pendingPost)) * 1000 +
     duration_ms (demoHost 1000 (Some (js ''10'')))
       (js ''PT'' @ toUpperCase (demoHost 1000 (Some (js ''10''))) (js ''5m'')) \<and>
   fst (run (demoHost 1000 (Some (js ''10''))) (OuijaQuery pendingPost) []) = None \<and>
   map (\<lambda>r. proxy_score (goodbye r))
     (complete (responses (fst (snd (run (demoHost 1000 (Some (js ''10'')))
        (OuijaQuery pendingPost) []))))) = [12]"
proof -
  let ?H = "demoHost 1000 (Some (js ''10''))"
  have c: "config (OuijaQuery pendingPost) (js ''time'') = Some (js ''5m'')"
    by code_simp
  have e: "js ''5m'' \<noteq> []" by (simp add: js_def)
  have u: "js ''PT'' @ toUpperCase ?H (js ''5m'') = js ''PT5M''" by code_simp
  have n: "now_ms ?H < created_utc (post (OuijaQuery pendingPost)) * 1000 +
      duration_ms ?H (js ''PT'' @ toUpperCase ?H (js ''5m''))"
    unfolding u by (simp add: demoHost_def OuijaQuery_def pendingPost_def demoPost_def)
  have s: "map (\<lambda>r. proxy_score (goodbye r))
     (complete (responses (fst (snd (run ?H (OuijaQuery pendingPost) []))))) = [12]"
    by code_simp
  from pending_returns_no_winner [of "OuijaQuery pendingPost" "js ''5m''" ?H "[]"] c e n
  have "fst (run ?H (OuijaQuery pendingPost) []) = None" by blast
  with c e n s show ?thesis by blast
qed



text \<open>
  C5, at a meta post. The top-level comment in plain words is Invalid and is left alone;
  the reply in plain words under the one-symbol comment is Invalid too, and the collector
  asks for its removal: \<^verbatim>\<open>collectResponses\<close> does not look at \<^verbatim>\<open>isMeta\<close> or
  \<^verbatim>\<open>isModPost\<close>.
\<close>

theorem meta_post_removes_invalid_reply:
  "isMeta (OuijaQuery metaPost) \<and>
   ctype (OuijaComment (demoHost 0 None) (plainComment ''c2'' (js ''what do you mean'') ''u2'' 102 1 [])) = Invalid \<and>
   ctype (OuijaComment (demoHost 0 None) (plainComment ''c3'' (js ''Fine with me'') ''u3'' 103 2 [])) = Invalid \<and>
   snd (snd (run (demoHost 0 None) (OuijaQuery metaPost) [])) =
     [(plainComment ''c2'' (js ''what do you mean'') ''u2'' 102 1 [], js ''invalid'')]"
  by code_simp

text \<open>
  C4, as the program has it. The summary is made of the entries of the queries that are
  not answered, in reverse order; a query is answered exactly when its run returned a
  winner; so a pending submission, whose run returns none, is listed like an open one,
  with its complete and incomplete sequences.
\<close>

theorem summary_lists_every_unanswered_query:
  "processPending h queries =
     concat (map (summaryEntry h) (filter (\<lambda>q. \<not> answered q) (rev queries))) \<and>
   (answered (runQuery h p) \<longleftrightarrow> fst (run h (OuijaQuery p) []) \<noteq> None) \<and>
   (hasTimeLeft h (OuijaQuery p) \<longrightarrow> \<not> answered (runQuery h p))"
proof -
  have a: "\<not> answered (OuijaQuery p)" by (simp add: OuijaQuery_def)
  have q: "runQuery h p = fst (snd (run h (OuijaQuery p) []))"
    by (simp add: runQuery_def split: prod.splits)
  show ?thesis
    using run_answered [OF a, of h "[]"] run_pending [of h "OuijaQuery p" "[]"]
    by (auto simp: processPending_def pendingLoop_entries q)
qed

theorem summary_lists_every_unanswered_query_witness:
  "hasTimeLeft (demoHost 1000 (Some (js ''10''))) (OuijaQuery pendingPost) \<and>
   \<not> answered (runQuery (demoHost 1000 (Some (js ''10''))) pendingPost) \<and>
   processPending (demoHost 1000 (Some (js ''10'')))
     [runQuery (demoHost 1000 (Some (js ''10''))) pendingPost] =
   summaryEntry (demoHost 1000 (Some (js ''10'')))
     (runQuery (demoHost 1000 (Some (js ''10''))) pendingPost)"
proof -
  let ?H = "demoHost 1000 (Some (js ''10''))"
  have t: "hasTimeLeft ?H (OuijaQuery pendingPost)" by code_simp
  from summary_lists_every_unanswered_query [of ?H "[runQuery ?H pendingPost]" pendingPost] t
  have n: "\<not> answered (runQuery ?H pendingPost)"
    and p: "processPending ?H [runQuery ?H pendingPost] =
      concat (map (summaryEntry ?H) (filter (\<lambda>q. \<not> answered q) (rev [runQuery ?H pendingPost])))"
    by blast+
  from p n have "processPending ?H [runQuery ?H pendingPost] = summaryEntry ?H (runQuery ?H pendingPost)"
    by simp
  with t n show ?thesis by blast
qed

text \<open>
  C4, as the claim has it, fails: the run of a post that is still waiting gives a query
  with time left, and the summary of the batch holds its entry.
\<close>

theorem pending_post_is_listed:
  "hasTimeLeft (demoHost 1000 (Some (js ''10''))) (runQuery (demoHost 1000 (Some (js ''10''))) pendingPost) \<and>
   processPending (demoHost 1000 (Some (js ''10''))) [runQuery (demoHost 1000 (Some (js ''10''))) pendingPost] =
     js ''### [Who?](https://redd.it/p1/)'' @ [0x0A] @
     js ''#### Pending'' @ [0x0A] @
     js ''Letters | Score'' @ [0x0A] @
     js ''--------|------'' @ [0x0A] @
     js ''[AB](https://redd.it/p1/c3?context=999) | 12'' @ [0x0A]"
  by code_simp







text \<open>
  C7, as the program has it. After a sibling group has gone through one duplicate
  handler, the handler keeps one comment for each body it has read, so no two of the
  comments kept have the same body as read, nor the same non-empty normalized body. When
  the group has no comment twice, none of the siblings that read as the body of \<open>a\<close>
  has replies, and \<open>a\<close> was created strictly before each of the others, then \<open>a\<close> is
  the one kept and the requests made are duplicate requests that spare \<open>a\<close> and hold
  every other sibling of that body not removed before.
\<close>

theorem one_representative_and_earliest_childless_kept:
  "(\<forall>j j' x y. fst (handleAll cs (Map.empty, reqs)) j = Some x \<and>
        fst (handleAll cs (Map.empty, reqs)) j' = Some y \<and>
        (proxy_body x = proxy_body y \<or> body x = body y \<and> body x \<noteq> []) \<longrightarrow> x = y) \<and>
   (distinct cs \<and> a \<in> set cs \<and>
    (\<forall>y\<in>set cs. proxy_body y = proxy_body a \<longrightarrow> \<not> hasReplies y) \<and>
    (\<forall>y\<in>set cs. proxy_body y = proxy_body a \<and> y \<noteq> a \<longrightarrow> proxy_created a < proxy_created y) \<longrightarrow>
    fst (handleAll cs (Map.empty, reqs)) (proxy_body a) = Some a \<and>
    (\<exists>ds. snd (handleAll cs (Map.empty, reqs)) = reqs @ duplicateRequests ds \<and>
       set ds \<subseteq> set cs \<and> a \<notin> set ds \<and>
       (\<forall>y\<in>set cs. proxy_body y = proxy_body a \<and> y \<noteq> a \<and> \<not> proxy_removed y \<longrightarrow> y \<in> set ds)))"
proof -
  let ?st = "handleAll cs (Map.empty, reqs)"
  have one: "x = y"
    if "fst ?st j = Some x" "fst ?st j' = Some y"
      "proxy_body x = proxy_body y \<or> body x = body y \<and> body x \<noteq> []" for j j' x y
  proof -
    from that(3) have "proxy_body x = proxy_body y" by (auto simp: proxy_body_def)
    with handleAll_wf [of cs reqs] that(1,2) have "j = j'" by metis
    with that(1,2) show ?thesis by simp
  qed
  have two: "fst ?st (proxy_body a) = Some a \<and>
    (\<exists>ds. snd ?st = reqs @ duplicateRequests ds \<and>
       set ds \<subseteq> set cs \<and> a \<notin> set ds \<and>
       (\<forall>y\<in>set cs. proxy_body y = proxy_body a \<and> y \<noteq> a \<and> \<not> proxy_removed y \<longrightarrow> y \<in> set ds))"
    if d: "distinct cs" and a: "a \<in> set cs"
      and c: "\<forall>y\<in>set cs. proxy_body y = proxy_body a \<longrightarrow> \<not> hasReplies y"
      and e: "\<forall>y\<in>set cs. proxy_body y = proxy_body a \<and> y \<noteq> a \<longrightarrow> proxy_created a < proxy_created y"
  proof -
    from handleAll_inv [OF d refl c e, of reqs]
    have inv: "dedupInv a (proxy_body a) reqs cs ?st" .
    with a have k: "fst ?st (proxy_body a) = Some a" by (simp add: dedupInv_def)
    from inv obtain ds where "snd ?st = reqs @ duplicateRequests ds" "set ds \<subseteq> set cs" "a \<notin> set ds"
      "\<forall>x\<in>set cs. proxy_body x = proxy_body a \<and> fst ?st (proxy_body a) \<noteq> Some x \<and> \<not> proxy_removed x \<longrightarrow> x \<in> set ds"
      unfolding dedupInv_def by blast
    with k show ?thesis by (intro conjI exI [of _ ds]) auto
  qed
  have p1: "\<forall>j j' x y. fst ?st j = Some x \<and> fst ?st j' = Some y \<and>
        (proxy_body x = proxy_body y \<or> body x = body y \<and> body x \<noteq> []) \<longrightarrow> x = y"
    using one by blast
  from two have p2: "distinct cs \<and> a \<in> set cs \<and>
    (\<forall>y\<in>set cs. proxy_body y = proxy_body a \<longrightarrow> \<not> hasReplies y) \<and>
    (\<forall>y\<in>set cs. proxy_body y = proxy_body a \<and> y \<noteq> a \<longrightarrow> proxy_created a < proxy_created y) \<longrightarrow>
    fst ?st (proxy_body a) = Some a \<and>
    (\<exists>ds. snd ?st = reqs @ duplicateRequests ds \<and>
       set ds \<subseteq> set cs \<and> a \<notin> set ds \<and>
       (\<forall>y\<in>set cs. proxy_body y = proxy_body a \<and> y \<noteq> a \<and> \<not> proxy_removed y \<longrightarrow> y \<in> set ds))"
    by (intro impI) (elim conjE)
  from p1 p2 show ?thesis by (rule conjI)
qed

theorem one_representative_and_earliest_childless_kept_witness:
  "distinct (map (OuijaComment (demoHost 0 None)) [siblingA ''a3'' 2 [], siblingA ''a1'' 1 []]) \<and>
   proxy_body (OuijaComment (demoHost 0 None) (siblingA ''a3'' 2 [])) =
     proxy_body (OuijaComment (demoHost 0 None) (siblingA ''a1'' 1 [])) \<and>
   \<not> hasReplies (OuijaComment (demoHost 0 None) (siblingA ''a1'' 1 [])) \<and>
   \<not> hasReplies (OuijaComment (demoHost 0 None) (siblingA ''a3'' 2 [])) \<and>
   proxy_created (OuijaComment (demoHost 0 None) (siblingA ''a1'' 1 [])) <
     proxy_created (OuijaComment (demoHost 0 None) (siblingA ''a3'' 2 [])) \<and>
   fst (handleAll (map (OuijaComment (demoHost 0 None)) [siblingA ''a3'' 2 [], siblingA ''a1'' 1 []])
          (Map.empty, []))
       (proxy_body (OuijaComment (demoHost 0 None) (siblingA ''a1'' 1 []))) =
     Some (OuijaComment (demoHost 0 None) (siblingA ''a1'' 1 [])) \<and>
   snd (handleAll (map (OuijaComment (demoHost 0 None)) [siblingA ''a3'' 2 [], siblingA ''a1'' 1 []])
          (Map.empty, [])) =
     [(siblingA ''a3'' 2 [], js ''duplicate'')]"
proof -
  let ?a = "OuijaComment (demoHost 0 None) (siblingA ''a1'' 1 [])"
  let ?b = "OuijaComment (demoHost 0 None) (siblingA ''a3'' 2 [])"
  let ?cs = "map (OuijaComment (demoHost 0 None)) [siblingA ''a3'' 2 [], siblingA ''a1'' 1 []]"
  have d: "distinct ?cs" by code_simp
  have k: "proxy_body ?b = proxy_body ?a" by code_simp
  have n1: "\<not> hasReplies ?a" by code_simp
  have n2: "\<not> hasReplies ?b" by code_simp
  have t: "proxy_created ?a < proxy_created ?b" by code_simp
  have m: "?a \<in> set ?cs" by simp
  have c: "\<forall>y\<in>set ?cs. proxy_body y = proxy_body ?a \<longrightarrow> \<not> hasReplies y"
    using n1 n2 by simp
  have e: "\<forall>y\<in>set ?cs. proxy_body y = proxy_body ?a \<and> y \<noteq> ?a \<longrightarrow>
      proxy_created ?a < proxy_created y"
    using t by simp
  have r: "snd (handleAll ?cs (Map.empty, [])) = [(siblingA ''a3'' 2 [], js ''duplicate'')]"
    by code_simp
  from one_representative_and_earliest_childless_kept [of ?cs "[]" ?a] d m c e
  have "fst (handleAll ?cs (Map.empty, [])) (proxy_body ?a) = Some ?a" by blast
  with d k n1 n2 t r show ?thesis by (intro conjI)
qed

text \<open>
  C7, as the claim has it, fails. Of three siblings of body A, the first and the third
  have no replies and were created at 1 and 2; the second, created at 3, has a reply. The
  handler removes the first as a duplicate, keeps the second, and leaves the third alone:
  the sibling created at 1 is not retained and the one created at 2 is not removed. The
  run of a post with these three top-level comments makes the same single request.
\<close>

theorem later_childless_sibling_displaced_counterexample:
  "proxy_body (OuijaComment (demoHost 0 None) (siblingA ''a1'' 1 [])) =
     proxy_body (OuijaComment (demoHost 0 None) (siblingA ''a3'' 2 [])) \<and>
   proxy_created (OuijaComment (demoHost 0 None) (siblingA ''a1'' 1 [])) <
     proxy_created (OuijaComment (demoHost 0 None) (siblingA ''a3'' 2 [])) \<and>
   \<not> hasReplies (OuijaComment (demoHost 0 None) (siblingA ''a1'' 1 [])) \<and>
   \<not> hasReplies (OuijaComment (demoHost 0 None) (siblingA ''a3'' 2 [])) \<and>
   fst (handleAll (map (OuijaComment (demoHost 0 None)) threeSiblings) (Map.empty, [])) (js ''A'') =
     Some (OuijaComment (demoHost 0 None)
       (siblingA ''a2'' 3 [plainComment ''b1'' (js ''B'') ''u9'' 4 1 []])) \<and>
   snd (handleAll (map (OuijaComment (demoHost 0 None)) threeSiblings) (Map.empty, [])) =
     [(siblingA ''a1'' 1 [], js ''duplicate'')] \<and>
   snd (snd (run (demoHost 0 None) (OuijaQuery (demoPost (js ''Who?'') [] threeSiblings)) [])) =
     [(siblingA ''a1'' 1 [], js ''duplicate'')]"
  by code_simp

end
